theory Spec2Isabelle
  imports Complex_Main "HOL-Library.Log_Nat" "HOL-Library.Word"
begin

section \<open>Python values used by \<open>scripts/remove-white-edges.py\<close>\<close>

text \<open>
  The script computes with three kinds of numbers: 8-bit channel values read from the
  pixel buffer, unbounded Python integers (the channels once unpacked, their sum, the
  threshold and the counter) and binary64 floats (the average \<open>(r + g + b) / 3\<close> and the
  relaxed limit \<open>threshold * 0.85\<close>).  A finite float is modelled by the rational it
  denotes; every operation rounds its exact result to the nearest binary64 value, ties to
  even, as CPython does.
\<close>

datatype py_error =
    ZeroDivisionError
  | OverflowError
  | ValueError
  | FileNotFoundError
  | UnidentifiedImageError

text \<open>\<open>expo x\<close> is the binary exponent of a non-zero rational: \<open>2 ^ expo x \<le> \<bar>x\<bar> < 2 ^ (expo x + 1)\<close>.\<close>

definition expo :: "rat \<Rightarrow> int" where
  "expo x = (case quotient_of \<bar>x\<bar> of (p, q) \<Rightarrow>
     let d = bitlen p - bitlen q in if 2 powi d \<le> \<bar>x\<bar> then d else d - 1)"

definition round_half_even :: "rat \<Rightarrow> int" where
  "round_half_even x = (let f = \<lfloor>x\<rfloor>; d = x - of_int f in
     if d < 1 / 2 then f else if 1 / 2 < d then f + 1 else if even f then f else f + 1)"

text \<open>
  Rounding to binary64: 53 significant bits, so the spacing of the representable values
  around \<open>x\<close> is \<open>2 ^ (expo x - 52)\<close>, and never finer than the subnormal spacing
  \<open>2 ^ - 1074\<close>.  The exponent is not bounded above here; the operations below raise
  where CPython does when the rounded value reaches \<open>2 ^ 1024\<close>.
\<close>

definition round_double :: "rat \<Rightarrow> rat" where
  "round_double x = (if x = 0 then 0 else
     let q = 2 powi (max (expo x - 52) (- 1074)) in of_int (round_half_even (x / q)) * q)"

text \<open>\<open>int / int\<close>: true division, correctly rounded.\<close>

definition int_truediv :: "int \<Rightarrow> int \<Rightarrow> py_error + rat" where
  "int_truediv a b =
     (if b = 0 then Inl ZeroDivisionError
      else let q = round_double (of_int a / of_int b)
           in if 2 ^ 1024 \<le> \<bar>q\<bar> then Inl OverflowError else Inr q)"

text \<open>The conversion of an integer operand to float, as in \<open>int * float\<close>.\<close>

definition int_to_float :: "int \<Rightarrow> py_error + rat" where
  "int_to_float n =
     (let q = round_double (of_int n)
      in if 2 ^ 1024 \<le> \<bar>q\<bar> then Inl OverflowError else Inr q)"

text \<open>
  \<open>float * float\<close>.  A product that rounds to \<open>2 ^ 1024\<close> or more is \<open>inf\<close> in Python; the
  script only multiplies by \<open>0.85\<close>, which cannot take a finite float there (lemma
  \<open>float_mul_0_85_finite\<close>), so the model has no infinite value.
\<close>

definition float_mul :: "rat \<Rightarrow> rat \<Rightarrow> rat" where
  "float_mul x y = round_double (x * y)"

definition int_mul_float :: "int \<Rightarrow> rat \<Rightarrow> py_error + rat" where
  "int_mul_float n y = (case int_to_float n of Inl e \<Rightarrow> Inl e | Inr x \<Rightarrow> Inr (float_mul x y))"

text \<open>The literal \<open>0.85\<close>: the binary64 value nearest to 17/20.\<close>

definition lit_0_85 :: rat where
  "lit_0_85 = round_double (17 / 20)"

section \<open>Pixels and the three rules\<close>

text \<open>
  After \<open>convert("RGBA")\<close> every pixel is a 4-tuple of 8-bit channels.  Unpacking
  \<open>r, g, b, a = pixels[x, y]\<close> yields Python integers, here \<open>uint\<close> of the channel.
\<close>

type_synonym pixel = "8 word \<times> 8 word \<times> 8 word \<times> 8 word"

definition transparent :: pixel where
  "transparent = (0, 0, 0, 0)"

definition rgb_sum :: "pixel \<Rightarrow> int" where
  "rgb_sum p = (case p of (r, g, b, a) \<Rightarrow> uint r + uint g + uint b)"

text \<open>Line 33: \<open>r >= threshold and g >= threshold and b >= threshold\<close>.\<close>

definition hard_white :: "int \<Rightarrow> pixel \<Rightarrow> bool" where
  "hard_white T p = (case p of (r, g, b, a) \<Rightarrow> T \<le> uint r \<and> T \<le> uint g \<and> T \<le> uint b)"

text \<open>Line 38: \<open>(r + g + b) / 3 >= threshold\<close>; a float is compared with an integer exactly.\<close>

definition average_white :: "int \<Rightarrow> pixel \<Rightarrow> py_error + bool" where
  "average_white T p =
     (case int_truediv (rgb_sum p) 3 of
        Inl e \<Rightarrow> Inl e
      | Inr avg \<Rightarrow> Inr (of_int T \<le> avg))"

text \<open>
  Line 42: \<open>a < 255 and (r + g + b) / 3 >= threshold * 0.85\<close>.  The right operand of
  \<open>and\<close> is evaluated only when \<open>a < 255\<close>; the quotient is computed before the product.
\<close>

definition translucent_bright :: "int \<Rightarrow> pixel \<Rightarrow> py_error + bool" where
  "translucent_bright T p =
     (case p of (r, g, b, a) \<Rightarrow>
        if uint a < 255 then
          (case int_truediv (rgb_sum p) 3 of
             Inl e \<Rightarrow> Inl e
           | Inr avg \<Rightarrow>
               (case int_mul_float T lit_0_85 of
                  Inl e \<Rightarrow> Inl e
                | Inr limit \<Rightarrow> Inr (limit \<le> avg)))
        else Inr False)"

section \<open>The scan\<close>

text \<open>
  The state of the double loop is the pixel access object (a buffer indexed by \<open>(x, y)\<close>)
  and \<open>transparent_count\<close>.  An exception leaves the loop at once.
\<close>

type_synonym buffer = "nat \<times> nat \<Rightarrow> pixel"

type_synonym scan_state = "buffer \<times> int"

text \<open>Lines 30 to 44: the body of the inner loop at \<open>(x, y)\<close>.\<close>

definition visit :: "int \<Rightarrow> nat \<Rightarrow> nat \<Rightarrow> scan_state \<Rightarrow> py_error + scan_state" where
  "visit T x y s =
     (case s of (px, cnt) \<Rightarrow>
        let p = px (x, y) in
        if hard_white T p then Inr (px((x, y) := transparent), cnt + 1)
        else
          (case average_white T p of
             Inl e \<Rightarrow> Inl e
           | Inr True \<Rightarrow> Inr (px((x, y) := transparent), cnt + 1)
           | Inr False \<Rightarrow>
               (case translucent_bright T p of
                  Inl e \<Rightarrow> Inl e
                | Inr True \<Rightarrow> Inr (px((x, y) := transparent), cnt + 1)
                | Inr False \<Rightarrow> Inr (px, cnt))))"

text \<open>Line 29: \<open>for x in range(width)\<close>, over the remaining columns of row \<open>y\<close>.\<close>

fun scan_row :: "int \<Rightarrow> nat \<Rightarrow> nat list \<Rightarrow> scan_state \<Rightarrow> py_error + scan_state" where
  "scan_row T y [] s = Inr s"
| "scan_row T y (x # xs) s =
     (case visit T x y s of Inl e \<Rightarrow> Inl e | Inr s' \<Rightarrow> scan_row T y xs s')"

text \<open>Line 28: \<open>for y in range(height)\<close>, over the remaining rows.\<close>

fun scan_rows :: "int \<Rightarrow> nat \<Rightarrow> nat list \<Rightarrow> scan_state \<Rightarrow> py_error + scan_state" where
  "scan_rows T w [] s = Inr s"
| "scan_rows T w (y # ys) s =
     (case scan_row T y [0..<w] s of Inl e \<Rightarrow> Inl e | Inr s' \<Rightarrow> scan_rows T w ys s')"

record image =
  width :: nat
  height :: nat
  pixels :: buffer

text \<open>Lines 23 to 44 on a decoded image: the filtered image and \<open>transparent_count\<close>.\<close>

definition filter_image :: "int \<Rightarrow> image \<Rightarrow> py_error + image \<times> int" where
  "filter_image T img =
     (case scan_rows T (width img) [0..<height img] (pixels img, 0) of
        Inl e \<Rightarrow> Inl e
      | Inr (px, cnt) \<Rightarrow> Inr (img\<lparr>pixels := px\<rparr>, cnt))"


section \<open>Files, output and the command line\<close>

text \<open>
  The world the script acts on: the files it can open (path to contents) and what it has
  printed.  Messages are kept by kind and argument, not by their wording.  The PNG codec
  is not part of the script: decoding a file to an RGBA image (\<open>Image.open\<close> followed by
  \<open>convert("RGBA")\<close>), encoding an image (\<open>save\<close>) and Python's \<open>int\<close> on a string are
  parameters.  Writing a file is taken to succeed.
\<close>

type_synonym path = string

type_synonym bytes = "8 word list"

datatype message =
    UsageText
  | ExampleText
  | NotFoundText path
  | ErrorText py_error
  | DoneText int
  | SavedText path
  | Traceback py_error

record world =
  files :: "path \<rightharpoonup> bytes"
  stdout :: "message list"
  stderr :: "message list"

text \<open>Lines 9 to 50.  Nothing is written or printed before the scan has finished.\<close>

definition remove_white_edges ::
  "(bytes \<Rightarrow> py_error + image) \<Rightarrow> (image \<Rightarrow> bytes) \<Rightarrow>
   path \<Rightarrow> path option \<Rightarrow> int \<Rightarrow> world \<Rightarrow> py_error + int \<times> world" where
  "remove_white_edges decode encode input_path output_path threshold w =
     (let out_path = (case output_path of None \<Rightarrow> input_path | Some p \<Rightarrow> p) in
      case files w input_path of
        None \<Rightarrow> Inl FileNotFoundError
      | Some data \<Rightarrow>
          (case decode data of
             Inl e \<Rightarrow> Inl e
           | Inr img \<Rightarrow>
               (case filter_image threshold img of
                  Inl e \<Rightarrow> Inl e
                | Inr (res, cnt) \<Rightarrow>
                    Inr (cnt, w\<lparr>files := (files w)(out_path \<mapsto> encode res),
                                 stdout := stdout w @ [DoneText cnt, SavedText out_path]\<rparr>))))"

text \<open>
  Lines 52 to 70: the exit status and the world afterwards.  \<open>int(sys.argv[3])\<close> is outside
  the \<open>try\<close>, so its \<open>ValueError\<close> ends the process with a traceback and status 1; a run
  that reaches the end of the script exits with status 0.
\<close>

definition main ::
  "(string \<Rightarrow> py_error + int) \<Rightarrow> (bytes \<Rightarrow> py_error + image) \<Rightarrow> (image \<Rightarrow> bytes) \<Rightarrow>
   string list \<Rightarrow> world \<Rightarrow> int \<times> world" where
  "main parse_int decode encode argv w =
     (if length argv < 2 then (1, w\<lparr>stdout := stdout w @ [UsageText, ExampleText]\<rparr>)
      else
        let input_path = argv ! 1;
            output_path = (if 2 < length argv then Some (argv ! 2) else None)
        in case (if 3 < length argv then parse_int (argv ! 3) else Inr 240) of
             Inl e \<Rightarrow> (1, w\<lparr>stderr := stderr w @ [Traceback e]\<rparr>)
           | Inr threshold \<Rightarrow>
               if files w input_path = None
               then (1, w\<lparr>stdout := stdout w @ [NotFoundText input_path]\<rparr>)
               else
                 (case remove_white_edges decode encode input_path output_path threshold w of
                    Inl e \<Rightarrow> (1, w\<lparr>stdout := stdout w @ [ErrorText e]\<rparr>)
                  | Inr (cnt, w') \<Rightarrow> (0, w')))"

section \<open>The rules as the specification words them\<close>

text \<open>
  The specification states the three rules over exact arithmetic: the mean of the colour
  channels is the rational \<open>(r + g + b) / 3\<close> and the relaxed limit is \<open>0.85 \<times> T\<close>.
\<close>

definition alpha :: "pixel \<Rightarrow> int" where
  "alpha p = (case p of (r, g, b, a) \<Rightarrow> uint a)"

definition spec_hard_white :: "int \<Rightarrow> pixel \<Rightarrow> bool" where
  "spec_hard_white T p = (case p of (r, g, b, a) \<Rightarrow> uint r \<ge> T \<and> uint g \<ge> T \<and> uint b \<ge> T)"

definition spec_average_white :: "int \<Rightarrow> pixel \<Rightarrow> bool" where
  "spec_average_white T p = (rat_of_int (rgb_sum p) / 3 \<ge> rat_of_int T)"

definition spec_translucent_bright :: "int \<Rightarrow> pixel \<Rightarrow> bool" where
  "spec_translucent_bright T p =
     (alpha p < 255 \<and> rat_of_int (rgb_sum p) / 3 \<ge> (85 / 100) * rat_of_int T)"

definition spec_white :: "int \<Rightarrow> pixel \<Rightarrow> bool" where
  "spec_white T p =
     (spec_hard_white T p \<or> spec_average_white T p \<or> spec_translucent_bright T p)"

section \<open>Auxiliary notions for the proofs\<close>

text \<open>The positions in the order the double loop visits them: row by row.\<close>

definition row_positions :: "nat \<Rightarrow> nat \<Rightarrow> (nat \<times> nat) list" where
  "row_positions w y = map (\<lambda>x. (x, y)) [0..<w]"

definition positions :: "image \<Rightarrow> (nat \<times> nat) list" where
  "positions img = concat (map (row_positions (width img)) [0..<height img])"

text \<open>The double loop flattened to one pass over a list of positions.\<close>

fun visit_all :: "int \<Rightarrow> (nat \<times> nat) list \<Rightarrow> scan_state \<Rightarrow> py_error + scan_state" where
  "visit_all T [] s = Inr s"
| "visit_all T (xy # ps) s =
     (case visit T (fst xy) (snd xy) s of Inl e \<Rightarrow> Inl e | Inr s' \<Rightarrow> visit_all T ps s')"

text \<open>The rules over the integers, and the one way a pixel makes the scan fail.\<close>

definition white :: "int \<Rightarrow> pixel \<Rightarrow> bool" where
  "white T p =
     (hard_white T p \<or> 3 * T \<le> rgb_sum p \<or> (alpha p < 255 \<and> 51 * T \<le> 20 * rgb_sum p))"

definition raises :: "int \<Rightarrow> pixel \<Rightarrow> bool" where
  "raises T p = (\<not> white T p \<and> alpha p < 255 \<and> int_to_float T = Inl OverflowError)"

text \<open>The buffer after the positions \<open>ps\<close> have been visited without an exception.\<close>

definition whiten :: "int \<Rightarrow> (nat \<times> nat) list \<Rightarrow> buffer \<Rightarrow> buffer" where
  "whiten T ps px = (\<lambda>xy. if xy \<in> set ps \<and> white T (px xy) then transparent else px xy)"

text \<open>Counting the positions of an image at which a predicate on pixels holds.\<close>

definition count_where :: "(pixel \<Rightarrow> bool) \<Rightarrow> image \<Rightarrow> int" where
  "count_where P img = int (length (filter (\<lambda>xy. P (pixels img xy)) (positions img)))"

text \<open>The number of positions at which two images of the same size differ.\<close>

definition changed_count :: "image \<Rightarrow> image \<Rightarrow> int" where
  "changed_count img res =
     int (length (filter (\<lambda>xy. pixels res xy \<noteq> pixels img xy) (positions img)))"

section \<open>The images of the scenarios\<close>

definition uniform :: "pixel \<Rightarrow> buffer" where
  "uniform p = (\<lambda>xy. p)"

text \<open>Scenario A: a 2 by 2 image, row by row, and the image expected after the filter.\<close>

definition scenario_A :: image where
  "scenario_A =
     \<lparr>width = 2, height = 2,
      pixels = (uniform (0, 0, 0, 0))
        ((0, 0) := (255, 255, 255, 255), (1, 0) := (250, 250, 250, 255),
         (0, 1) := (10, 10, 10, 255), (1, 1) := (0, 0, 0, 0))\<rparr>"

definition scenario_A_expected :: image where
  "scenario_A_expected =
     \<lparr>width = 2, height = 2,
      pixels = (uniform (0, 0, 0, 0))
        ((0, 0) := (0, 0, 0, 0), (1, 0) := (0, 0, 0, 0),
         (0, 1) := (10, 10, 10, 255), (1, 1) := (0, 0, 0, 0))\<rparr>"

text \<open>
  Scenario B: a single translucent pixel.  A buffer is a function on all coordinates; only
  position \<open>(0, 0)\<close> lies inside a 1 by 1 image.
\<close>

definition scenario_B :: image where
  "scenario_B = \<lparr>width = 1, height = 1, pixels = uniform (230, 230, 230, 100)\<rparr>"

definition scenario_B_expected :: image where
  "scenario_B_expected =
     \<lparr>width = 1, height = 1,
      pixels = (uniform (230, 230, 230, 100))((0, 0) := (0, 0, 0, 0))\<rparr>"

text \<open>A single pixel that is fully transparent already.\<close>

definition transparent_dot :: image where
  "transparent_dot = \<lparr>width = 1, height = 1, pixels = uniform (0, 0, 0, 0)\<rparr>"

section \<open>Rounding to binary64\<close>

lemma round_half_even_le:
  assumes "x \<le> of_int j"
  shows "round_half_even x \<le> j"
proof -
  have f: "\<lfloor>x\<rfloor> \<le> j"
    using assms by (simp add: floor_le_iff)
  have "\<lfloor>x\<rfloor> + 1 \<le> j" if "1 / 2 \<le> x - of_int \<lfloor>x\<rfloor>"
  proof -
    have "rat_of_int \<lfloor>x\<rfloor> < of_int j" using that assms by linarith
    then show ?thesis by simp
  qed
  with f show ?thesis
    by (auto simp: round_half_even_def Let_def)
qed

lemma round_half_even_ge:
  assumes "of_int j \<le> x"
  shows "j \<le> round_half_even x"
proof -
  have "j \<le> \<lfloor>x\<rfloor>"
    using assms by (simp add: le_floor_iff)
  then show ?thesis
    by (auto simp: round_half_even_def Let_def)
qed

lemma bitlen_rat:
  assumes "0 < n"
  shows "2 powi (bitlen n - 1) \<le> rat_of_int n" and "rat_of_int n < 2 powi (bitlen n)"
proof -
  have b: "1 \<le> bitlen n"
    using assms bitlen_eq_zero_iff [of n] bitlen_nonneg [of n] by linarith
  have "rat_of_int (2 ^ nat (bitlen n - 1)) \<le> rat_of_int n"
    using bitlen_bounds [OF assms] by (simp only: of_int_le_iff)
  then show "2 powi (bitlen n - 1) \<le> rat_of_int n"
    using b by (simp add: power_int_def)
  have "rat_of_int n < rat_of_int (2 ^ nat (bitlen n))"
    using bitlen_bounds [OF assms] by (simp only: of_int_less_iff)
  then show "rat_of_int n < 2 powi (bitlen n)"
    using b by (simp add: power_int_def)
qed

lemma expo_bounds:
  assumes "x \<noteq> 0"
  shows "2 powi (expo x) \<le> \<bar>x\<bar>" and "\<bar>x\<bar> < 2 powi (expo x + 1)"
proof -
  obtain p q where pq: "quotient_of \<bar>x\<bar> = (p, q)" by (cases "quotient_of \<bar>x\<bar>")
  have q: "0 < q" using pq by (rule quotient_of_denom_pos)
  have x: "\<bar>x\<bar> = of_int p / of_int q" using pq by (rule quotient_of_div)
  have "0 < \<bar>x\<bar>" using assms by simp
  then have p: "0 < p" using q unfolding x by (simp add: zero_less_divide_iff)
  define bp where "bp = bitlen p"
  define bq where "bq = bitlen q"
  have bp: "2 powi (bp - 1) \<le> rat_of_int p" "rat_of_int p < 2 powi bp"
    using bitlen_rat [OF p] by (simp_all add: bp_def)
  have bq: "2 powi (bq - 1) \<le> rat_of_int q" "rat_of_int q < 2 powi bq"
    using bitlen_rat [OF q] by (simp_all add: bq_def)
  have qpos: "0 < rat_of_int q" using q by simp
  have "2 powi (bp - bq - 1) * rat_of_int q \<le> 2 powi (bp - bq - 1) * 2 powi bq"
    using bq(2) by (intro mult_left_mono) simp_all
  also have "\<dots> = 2 powi (bp - 1)"
    by (simp flip: power_int_add)
  also have "\<dots> \<le> rat_of_int p" by (rule bp(1))
  finally have lo: "2 powi (bp - bq - 1) \<le> \<bar>x\<bar>"
    unfolding x using qpos by (simp add: pos_le_divide_eq)
  have "rat_of_int p < 2 powi bp" by (rule bp(2))
  also have "\<dots> = 2 powi (bp - bq + 1) * 2 powi (bq - 1)"
    by (simp flip: power_int_add)
  also have "\<dots> \<le> 2 powi (bp - bq + 1) * rat_of_int q"
    using bq(1) by (intro mult_left_mono) simp_all
  finally have hi: "\<bar>x\<bar> < 2 powi (bp - bq + 1)"
    unfolding x using qpos by (simp add: pos_divide_less_eq)
  have e: "expo x = (if 2 powi (bp - bq) \<le> \<bar>x\<bar> then bp - bq else bp - bq - 1)"
    by (simp add: expo_def pq bp_def bq_def Let_def)
  show "2 powi (expo x) \<le> \<bar>x\<bar>" using lo by (simp add: e)
  show "\<bar>x\<bar> < 2 powi (expo x + 1)" using hi by (auto simp add: e)
qed


lemma pow2_less_cancel:
  assumes "(2::rat) powi a < 2 powi b"
  shows "a < b"
proof (rule ccontr)
  assume "\<not> a < b"
  then have "(2::rat) powi b \<le> 2 powi a"
    by (intro power_int_increasing) simp_all
  with assms show False by simp
qed

lemma expo_less:
  assumes "x \<noteq> 0" and "\<bar>x\<bar> < 2 powi n"
  shows "expo x < n"
proof -
  have "(2::rat) powi (expo x) < 2 powi n"
    using expo_bounds(1) [OF assms(1)] assms(2) by linarith
  then show ?thesis
    by (rule pow2_less_cancel)
qed

lemma expo_ge:
  assumes "2 powi n \<le> \<bar>x\<bar>"
  shows "n \<le> expo x"
proof -
  have nz: "x \<noteq> 0" using assms
    by (metis abs_zero not_less zero_less_power_int zero_less_numeral)
  have "(2::rat) powi n < 2 powi (expo x + 1)"
    using expo_bounds(2) [OF nz] assms by linarith
  then have "n < expo x + 1"
    by (rule pow2_less_cancel)
  then show ?thesis by simp
qed

text \<open>A multiple of \<open>2 ^ k\<close> with \<open>- 1074 \<le> k\<close> bounds the rounded value as it bounds the exact one,
  as long as the spacing at \<open>x\<close> is at most \<open>2 ^ k\<close>.\<close>

lemma round_double_le_grid:
  assumes "x \<le> of_int j * 2 powi k" and "- 1074 \<le> k" and "\<bar>x\<bar> < 2 powi (k + 53)"
  shows "round_double x \<le> of_int j * 2 powi k"
proof (cases "x = 0")
  case True
  then show ?thesis using assms(1) by (simp add: round_double_def)
next
  case False
  define m where "m = max (expo x - 52) (- 1074)"
  define q :: rat where "q = 2 powi m"
  have "expo x < k + 53" using False assms(3) by (rule expo_less)
  then have mk: "m \<le> k" using assms(2) by (simp add: m_def)
  have q: "0 < q" by (simp add: q_def)
  have "(2::rat) powi k = 2 powi (k - m) * 2 powi m"
    by (simp flip: power_int_add)
  also have "(2::rat) powi (k - m) = 2 ^ nat (k - m)"
    using mk by (simp add: power_int_def)
  finally have g: "of_int j * 2 powi k = rat_of_int (j * 2 ^ nat (k - m)) * q"
    by (simp add: q_def)
  have "x / q \<le> rat_of_int (j * 2 ^ nat (k - m))"
    using assms(1) q unfolding g by (simp add: pos_divide_le_eq)
  then have "round_half_even (x / q) \<le> j * 2 ^ nat (k - m)"
    by (rule round_half_even_le)
  then have "rat_of_int (round_half_even (x / q)) * q \<le> rat_of_int (j * 2 ^ nat (k - m)) * q"
    using q by (simp only: mult_le_cancel_right_pos of_int_le_iff)
  then show ?thesis
    using False unfolding g by (simp add: round_double_def Let_def m_def q_def)
qed


lemma round_double_ge_grid:
  assumes "of_int j * 2 powi k \<le> x" and "- 1074 \<le> k" and "\<bar>x\<bar> < 2 powi (k + 53)"
  shows "of_int j * 2 powi k \<le> round_double x"
proof (cases "x = 0")
  case True
  then show ?thesis using assms(1) by (simp add: round_double_def)
next
  case False
  define m where "m = max (expo x - 52) (- 1074)"
  define q :: rat where "q = 2 powi m"
  have "expo x < k + 53" using False assms(3) by (rule expo_less)
  then have mk: "m \<le> k" using assms(2) by (simp add: m_def)
  have q: "0 < q" by (simp add: q_def)
  have "(2::rat) powi k = 2 powi (k - m) * 2 powi m"
    by (simp flip: power_int_add)
  also have "(2::rat) powi (k - m) = 2 ^ nat (k - m)"
    using mk by (simp add: power_int_def)
  finally have g: "of_int j * 2 powi k = rat_of_int (j * 2 ^ nat (k - m)) * q"
    by (simp add: q_def)
  have "rat_of_int (j * 2 ^ nat (k - m)) \<le> x / q"
    using assms(1) q unfolding g by (simp add: pos_le_divide_eq)
  then have "j * 2 ^ nat (k - m) \<le> round_half_even (x / q)"
    by (rule round_half_even_ge)
  then have "rat_of_int (j * 2 ^ nat (k - m)) * q \<le> rat_of_int (round_half_even (x / q)) * q"
    using q by (simp only: mult_le_cancel_right_pos of_int_le_iff)
  then show ?thesis
    using False unfolding g by (simp add: round_double_def Let_def m_def q_def)
qed

lemma round_double_ge_pow2:
  assumes "2 powi n \<le> x" and "- 1022 \<le> n"
  shows "2 powi n \<le> round_double x"
proof -
  have xpos: "0 < x"
    using assms(1) zero_less_power_int [of "2::rat" n] by linarith
  then have nz: "x \<noteq> 0" and ax: "\<bar>x\<bar> = x" by simp_all
  define e where "e = expo x"
  define q :: rat where "q = 2 powi (e - 52)"
  have ne: "n \<le> e" unfolding e_def using assms(1) ax by (intro expo_ge) simp
  then have m: "max (e - 52) (- 1074) = e - 52" using assms(2) by simp
  have q: "0 < q" by (simp add: q_def)
  have "rat_of_int (2 ^ 52) * q = 2 powi 52 * 2 powi (e - 52)"
    by (simp add: q_def)
  also have "\<dots> = 2 powi (52 + (e - 52))"
    by (rule power_int_add [symmetric]) simp
  also have "\<dots> = 2 powi e" by simp
  finally have g: "rat_of_int (2 ^ 52) * q = 2 powi e" .
  have "2 powi e \<le> x"
    using expo_bounds(1) [OF nz] by (simp add: e_def ax)
  then have "rat_of_int (2 ^ 52) \<le> x / q"
    using q unfolding g [symmetric] by (simp add: pos_le_divide_eq)
  then have "2 ^ 52 \<le> round_half_even (x / q)"
    by (rule round_half_even_ge)
  then have "rat_of_int (2 ^ 52) * q \<le> rat_of_int (round_half_even (x / q)) * q"
    using q by (simp only: mult_le_cancel_right_pos of_int_le_iff)
  then have "2 powi e \<le> round_double x"
    using nz m unfolding g by (simp add: round_double_def Let_def q_def e_def)
  moreover have "(2::rat) powi n \<le> 2 powi e"
    using ne by (intro power_int_increasing) simp_all
  ultimately show ?thesis by linarith
qed

lemma round_double_nonneg:
  assumes "0 \<le> x"
  shows "0 \<le> round_double x"
proof -
  have "0 \<le> round_half_even (x / 2 powi k)" for k
    using assms by (intro round_half_even_ge) simp
  then show ?thesis
    by (simp add: round_double_def Let_def)
qed

lemma round_double_nonpos:
  assumes "x \<le> 0"
  shows "round_double x \<le> 0"
proof -
  have "round_half_even (x / 2 powi k) \<le> 0" for k
    using assms by (intro round_half_even_le) (simp add: divide_nonpos_pos)
  then show ?thesis
    by (simp add: round_double_def Let_def mult_nonpos_nonneg)
qed

text \<open>The grid of multiples of \<open>1/1024\<close> is enough for the values of the script.\<close>

lemma round_double_le_1024:
  assumes "x \<le> of_int j / 1024" and "\<bar>x\<bar> < 2 ^ 43"
  shows "round_double x \<le> of_int j / 1024"
proof -
  have p: "(2::rat) powi (- 10) = 1 / 1024"
    by (simp add: power_int_def power_one_over)
  show ?thesis
    using round_double_le_grid [of x j "- 10"] assms unfolding p by simp
qed

lemma round_double_ge_1024:
  assumes "of_int j / 1024 \<le> x" and "j \<le> 2 ^ 53" and "0 \<le> x"
  shows "of_int j / 1024 \<le> round_double x"
proof (cases "\<bar>x\<bar> < 2 ^ 43")
  case True
  have p: "(2::rat) powi (- 10) = 1 / 1024"
    by (simp add: power_int_def power_one_over)
  show ?thesis
    using round_double_ge_grid [of j "- 10" x] assms(1) True unfolding p by simp
next
  case False
  have "rat_of_int j / 1024 \<le> rat_of_int (2 ^ 53) / 1024"
    using assms(2) by (simp only: of_int_le_iff divide_le_cancel) simp
  then have j: "rat_of_int j / 1024 \<le> 2 ^ 43" by simp
  have "2 powi 43 \<le> x"
    using False assms(3) by simp
  then have "2 powi 43 \<le> round_double x"
    by (rule round_double_ge_pow2) simp
  then show ?thesis using j by simp
qed

section \<open>The rules computed in floating point agree with exact arithmetic\<close>

lemma lit_0_85_value: "lit_0_85 = 7656119366529843 / 9007199254740992"
  unfolding lit_0_85_def by code_simp

lemma round_double_int:
  assumes "\<bar>n\<bar> < 2 ^ 53"
  shows "round_double (of_int n) = of_int n"
proof -
  have b: "\<bar>rat_of_int n\<bar> < 2 powi (0 + 53)"
  proof -
    have "rat_of_int \<bar>n\<bar> < rat_of_int (2 ^ 53)"
      using assms by (simp only: of_int_less_iff)
    then show ?thesis by simp
  qed
  have "round_double (of_int n) \<le> of_int n * 2 powi 0"
    by (rule round_double_le_grid [OF _ _ b]) simp_all
  moreover have "of_int n * 2 powi 0 \<le> round_double (of_int n)"
    by (rule round_double_ge_grid [OF _ _ b]) simp_all
  ultimately show ?thesis by simp
qed

lemma int_to_float_small:
  assumes "\<bar>n\<bar> < 2 ^ 53"
  shows "int_to_float n = Inr (of_int n)"
proof -
  have "rat_of_int \<bar>n\<bar> < rat_of_int (2 ^ 53)"
    using assms by (simp only: of_int_less_iff)
  then have "\<bar>rat_of_int n\<bar> < 2 ^ 1024" by simp
  then show ?thesis
    by (simp add: int_to_float_def round_double_int [OF assms])
qed

text \<open>Multiplying a finite float by \<open>0.85\<close> gives a finite float.\<close>

lemma float_mul_0_85_finite:
  assumes "\<bar>x\<bar> < 2 ^ 1024"
  shows "\<bar>float_mul x lit_0_85\<bar> < 2 ^ 1024"
proof -
  let ?c = "7656119366529843 / 9007199254740992 :: rat"
  let ?M = "rat_of_int (2 ^ 53 - 1) * 2 powi 971"
  let ?N = "rat_of_int (- (2 ^ 53 - 1)) * 2 powi 971"
  have p: "(2::rat) powi 971 = 2 ^ 971" "(2::rat) powi (971 + 53) = 2 ^ 1024"
    by simp_all
  have "\<bar>x * ?c\<bar> = \<bar>x\<bar> * ?c" by (simp add: abs_mult)
  also have "\<dots> \<le> 2 ^ 1024 * ?c"
    using assms by (intro mult_right_mono) simp_all
  finally have b: "\<bar>x * ?c\<bar> \<le> 2 ^ 1024 * ?c" .
  have m: "2 ^ 1024 * ?c \<le> ?M" "?M < 2 ^ 1024" "?N = - ?M"
    unfolding p by simp_all
  have small: "\<bar>x * ?c\<bar> < 2 powi (971 + 53)"
    unfolding p using b m(1,2) by linarith
  have "x * ?c \<le> ?M" using b m(1) by linarith
  then have up: "round_double (x * ?c) \<le> ?M"
    using _ small by (rule round_double_le_grid) simp
  have "?N \<le> x * ?c" using b m(1,3) by linarith
  then have lo: "?N \<le> round_double (x * ?c)"
    using _ small by (rule round_double_ge_grid) simp
  show ?thesis
    using up lo m(2,3) by (simp add: float_mul_def lit_0_85_value abs_less_iff)
qed

lemma rgb_sum_bounds: "0 \<le> rgb_sum p" "rgb_sum p \<le> 765"
proof -
  obtain r g b a where p: "p = (r, g, b, a)" by (cases p)
  have "uint r < 256" "uint g < 256" "uint b < 256"
    using uint_bounded [of r] uint_bounded [of g] uint_bounded [of b] by simp_all
  then show "0 \<le> rgb_sum p" "rgb_sum p \<le> 765"
    by (simp_all add: p rgb_sum_def)
qed

lemma average_small:
  assumes "0 \<le> s" and "s \<le> 765"
  shows "\<bar>rat_of_int s / 3\<bar> < 2 ^ 43" and "0 \<le> rat_of_int s / 3"
proof -
  have "rat_of_int s \<le> rat_of_int 765" using assms(2) by (simp only: of_int_le_iff)
  moreover have "rat_of_int 0 \<le> rat_of_int s" using assms(1) by (simp only: of_int_le_iff)
  ultimately show "\<bar>rat_of_int s / 3\<bar> < 2 ^ 43" and "0 \<le> rat_of_int s / 3" by simp_all
qed

lemma average_value:
  "int_truediv (rgb_sum p) 3 = Inr (round_double (of_int (rgb_sum p) / 3))"
proof -
  let ?x = "rat_of_int (rgb_sum p) / 3"
  note s = rgb_sum_bounds [of p]
  have "rat_of_int (rgb_sum p) \<le> rat_of_int 765" using s(2) by (simp only: of_int_le_iff)
  then have "?x \<le> rat_of_int (255 * 1024) / 1024" by simp
  then have "round_double ?x \<le> rat_of_int (255 * 1024) / 1024"
    using average_small(1) [OF s] by (rule round_double_le_1024)
  moreover have "0 \<le> round_double ?x"
    using average_small(2) [OF s] by (rule round_double_nonneg)
  ultimately have "\<bar>round_double ?x\<bar> < 2 ^ 1024" by simp
  then show ?thesis by (simp add: int_truediv_def Let_def)
qed

lemma average_white_eq: "average_white T p = Inr (3 * T \<le> rgb_sum p)"
proof -
  let ?s = "rgb_sum p"
  let ?x = "rat_of_int ?s / 3"
  note s = rgb_sum_bounds [of p]
  have "rat_of_int T \<le> round_double ?x \<longleftrightarrow> 3 * T \<le> ?s"
  proof
    assume le: "3 * T \<le> ?s"
    then have "rat_of_int (3 * T) \<le> rat_of_int ?s" by (simp only: of_int_le_iff)
    then have "rat_of_int (T * 1024) / 1024 \<le> ?x" by simp
    moreover have "T * 1024 \<le> 2 ^ 53" using le s(2) by simp
    ultimately have "rat_of_int (T * 1024) / 1024 \<le> round_double ?x"
      using average_small(2) [OF s] by (rule round_double_ge_1024)
    then show "rat_of_int T \<le> round_double ?x" by simp
  next
    assume fl: "rat_of_int T \<le> round_double ?x"
    show "3 * T \<le> ?s"
    proof (rule ccontr)
      assume "\<not> 3 * T \<le> ?s"
      then have "?s \<le> 3 * T - 1" by simp
      then have "rat_of_int ?s \<le> rat_of_int (3 * T - 1)" by (simp only: of_int_le_iff)
      then have "?x \<le> rat_of_int (T * 1024 - 1) / 1024" by simp
      then have "round_double ?x \<le> rat_of_int (T * 1024 - 1) / 1024"
        using average_small(1) [OF s] by (rule round_double_le_1024)
      then have "round_double ?x < rat_of_int T" by simp
      with fl show False by simp
    qed
  qed
  then show ?thesis by (simp add: average_white_def average_value)
qed

lemma grid_below:
  fixes s T :: int
  assumes "51 * T \<le> 20 * s"
  shows "17408 * T \<le> 20 * ((1024 * s) div 3)"
proof -
  define j where "j = (1024 * s) div 3"
  consider "51 * T = 20 * s" | "51 * T + 1 \<le> 20 * s" using assms by linarith
  then have "17408 * T \<le> 20 * j"
  proof cases
    case 1
    then have "s = 21 * s - 51 * T" by linarith
    then have "s = 3 * (7 * s - 17 * T)" by simp
    then obtain k where k: "s = 3 * k" ..
    have "j = 1024 * k" by (simp add: j_def k)
    then show ?thesis using 1 k by simp
  next
    case 2
    have "1024 * s - 2 \<le> 3 * j" unfolding j_def by linarith
    then show ?thesis using 2 by linarith
  qed
  then show ?thesis by (simp add: j_def)
qed

lemma grid_above:
  fixes s T j :: int
  assumes "3 * j \<le> 1024 * s + 2" and "20 * s < 51 * T" and "T \<le> 1000"
  shows "(j + 1) * 8796093022208 \<le> T * 7656119366529843"
proof -
  have "20 * s + 1 \<le> 51 * T" using assms(2) by simp
  then have "60 * j + 60 \<le> 52224 * T - 924" using assms(1) by linarith
  then have a: "60 * (j + 1) \<le> 52224 * T - 924" by simp
  have "60 * ((j + 1) * 8796093022208) = (60 * (j + 1)) * 8796093022208" by simp
  also have "\<dots> \<le> (52224 * T - 924) * 8796093022208"
    using a by (rule mult_right_mono) simp
  also have "\<dots> \<le> 60 * (T * 7656119366529843)"
    using assms(3) by simp
  finally show ?thesis by simp
qed

lemma limit_cmp:
  assumes s: "0 \<le> s" "s \<le> 765"
  shows "round_double (round_double (of_int T) * lit_0_85) \<le> round_double (of_int s / 3)
           \<longleftrightarrow> 51 * T \<le> 20 * s"
proof -
  let ?c = "7656119366529843 / 9007199254740992 :: rat"
  let ?x = "rat_of_int s / 3"
  note small = average_small [OF s]
  have avg0: "0 \<le> round_double ?x" using small(2) by (rule round_double_nonneg)
  consider "T \<le> 0" | "1 \<le> T" "T \<le> 1000" "51 * T \<le> 20 * s"
    | "1 \<le> T" "T \<le> 1000" "20 * s < 51 * T" | "1000 < T"
    by linarith
  then show ?thesis
  proof cases
    case 1
    then have "rat_of_int T \<le> 0" by simp
    then have "round_double (of_int T) \<le> 0" by (rule round_double_nonpos)
    then have "round_double (of_int T) * ?c \<le> 0"
      by (simp add: mult_nonpos_nonneg)
    then have "round_double (round_double (of_int T) * ?c) \<le> 0"
      by (rule round_double_nonpos)
    moreover have "51 * T \<le> 20 * s" using 1 s(1) by linarith
    ultimately show ?thesis using avg0 by (simp add: lit_0_85_value)
  next
    case 2
    have T: "round_double (of_int T) = of_int T"
      using 2 by (intro round_double_int) simp
    define j where "j = (1024 * s) div 3"
    have j3: "3 * j \<le> 1024 * s" unfolding j_def by presburger
    have "17408 * T \<le> 20 * j" unfolding j_def using 2(3) by (rule grid_below)
    then have "T * 7656119366529843 \<le> j * 8796093022208" using 2(1) by linarith
    then have "rat_of_int (T * 7656119366529843) \<le> rat_of_int (j * 8796093022208)"
      by (simp only: of_int_le_iff)
    then have up: "rat_of_int T * ?c \<le> rat_of_int j / 1024" by simp
    have "rat_of_int (T * 7656119366529843) \<le> rat_of_int (1000 * 7656119366529843)"
      using 2(2) by (simp only: of_int_le_iff)
    moreover have "rat_of_int 0 \<le> rat_of_int (T * 7656119366529843)"
      using 2(1) by (simp only: of_int_le_iff)
    ultimately have "\<bar>rat_of_int T * ?c\<bar> < 2 ^ 43" by simp
    with up have a: "round_double (rat_of_int T * ?c) \<le> rat_of_int j / 1024"
      by (rule round_double_le_1024)
    have "rat_of_int (3 * j) \<le> rat_of_int (1024 * s)" using j3 by (simp only: of_int_le_iff)
    then have "rat_of_int j / 1024 \<le> ?x" by simp
    moreover have "j \<le> 2 ^ 53" using j3 s(2) by simp
    ultimately have "rat_of_int j / 1024 \<le> round_double ?x"
      using small(2) by (rule round_double_ge_1024)
    with a show ?thesis using 2(3) by (simp add: lit_0_85_value T)
  next
    case 3
    have T: "round_double (of_int T) = of_int T"
      using 3 by (intro round_double_int) simp
    define j where "j = (1024 * s + 2) div 3"
    have j3: "1024 * s \<le> 3 * j" "3 * j \<le> 1024 * s + 2" unfolding j_def by presburger+
    have "rat_of_int (1024 * s) \<le> rat_of_int (3 * j)" using j3(1) by (simp only: of_int_le_iff)
    then have "?x \<le> rat_of_int j / 1024" by simp
    then have a: "round_double ?x \<le> rat_of_int j / 1024"
      using small(1) by (rule round_double_le_1024)
    have "(j + 1) * 8796093022208 \<le> T * 7656119366529843"
      using j3(2) 3(3,2) by (rule grid_above)
    then have "rat_of_int ((j + 1) * 8796093022208) \<le> rat_of_int (T * 7656119366529843)"
      by (simp only: of_int_le_iff)
    then have "rat_of_int (j + 1) / 1024 \<le> rat_of_int T * ?c" by simp
    moreover have "j + 1 \<le> 2 ^ 53" using j3(2) s(2) by simp
    moreover have "0 \<le> rat_of_int T * ?c" using 3(1) by simp
    ultimately have "rat_of_int (j + 1) / 1024 \<le> round_double (rat_of_int T * ?c)"
      by (rule round_double_ge_1024)
    moreover have "rat_of_int j / 1024 < rat_of_int (j + 1) / 1024" by simp
    ultimately have "round_double ?x < round_double (rat_of_int T * ?c)"
      using a by linarith
    then show ?thesis using 3(3) by (simp add: lit_0_85_value T)
  next
    case 4
    have "rat_of_int (1000 * 1024) / 1024 \<le> rat_of_int T"
      using 4 by simp
    then have "rat_of_int (1000 * 1024) / 1024 \<le> round_double (of_int T)"
      by (rule round_double_ge_1024) (use 4 in simp_all)
    then have f: "1000 \<le> round_double (of_int T)" by simp
    have "1000 * ?c \<le> round_double (of_int T) * ?c"
      using f by (intro mult_right_mono) simp_all
    then have g: "rat_of_int (849 * 1024) / 1024 \<le> round_double (of_int T) * ?c" by simp
    then have "rat_of_int (849 * 1024) / 1024 \<le> round_double (round_double (of_int T) * ?c)"
      by (rule round_double_ge_1024) (use g in simp_all)
    then have lo: "849 \<le> round_double (round_double (of_int T) * ?c)" by simp
    have "rat_of_int s \<le> rat_of_int 765" using s(2) by (simp only: of_int_le_iff)
    then have "?x \<le> rat_of_int (255 * 1024) / 1024" by simp
    then have "round_double ?x \<le> rat_of_int (255 * 1024) / 1024"
      using small(1) by (rule round_double_le_1024)
    then have "round_double ?x < round_double (round_double (of_int T) * ?c)"
      using lo by simp
    moreover have "20 * s < 51 * T" using 4 s(2) by linarith
    ultimately show ?thesis by (simp add: lit_0_85_value)
  qed
qed

lemma int_to_float_cases:
  "int_to_float T = Inl OverflowError \<or> int_to_float T = Inr (round_double (of_int T))"
  by (simp add: int_to_float_def Let_def)

lemma overflow_large:
  assumes "int_to_float T = Inl e"
  shows "2 ^ 53 \<le> \<bar>T\<bar>"
proof (rule ccontr)
  assume "\<not> 2 ^ 53 \<le> \<bar>T\<bar>"
  then have "int_to_float T = Inr (of_int T)"
    by (intro int_to_float_small) simp
  with assms show False by simp
qed

lemma translucent_bright_eq:
  "translucent_bright T p =
     (if alpha p < 255
      then (case int_to_float T of Inl e \<Rightarrow> Inl OverflowError
            | Inr f \<Rightarrow> Inr (51 * T \<le> 20 * rgb_sum p))
      else Inr False)"
proof -
  obtain r g b a where p: "p = (r, g, b, a)" by (cases p)
  show ?thesis
    using int_to_float_cases [of T] limit_cmp [OF rgb_sum_bounds, of T p]
    by (auto simp add: translucent_bright_def alpha_def average_value int_mul_float_def
        float_mul_def p)
qed

lemma spec_hard_white_eq: "spec_hard_white T p = hard_white T p"
  by (simp add: spec_hard_white_def hard_white_def)

lemma spec_average_white_eq: "spec_average_white T p = (3 * T \<le> rgb_sum p)"
proof -
  have "(rat_of_int T \<le> rat_of_int (rgb_sum p) / 3) = (rat_of_int (3 * T) \<le> rat_of_int (rgb_sum p))"
    by (simp add: mult.commute)
  also have "\<dots> = (3 * T \<le> rgb_sum p)" by (simp only: of_int_le_iff)
  finally show ?thesis by (simp add: spec_average_white_def)
qed

lemma spec_translucent_bright_eq:
  "spec_translucent_bright T p = (alpha p < 255 \<and> 51 * T \<le> 20 * rgb_sum p)"
proof -
  have "(85 / 100 * rat_of_int T \<le> rat_of_int (rgb_sum p) / 3)
          = (rat_of_int (51 * T) \<le> rat_of_int (20 * rgb_sum p))"
    by (simp add: mult.commute)
  also have "\<dots> = (51 * T \<le> 20 * rgb_sum p)" by (simp only: of_int_le_iff)
  finally show ?thesis by (simp add: spec_translucent_bright_def)
qed

lemma spec_white_eq: "spec_white T p = white T p"
  by (simp add: spec_white_def white_def spec_hard_white_eq spec_average_white_eq
      spec_translucent_bright_eq)

lemma hard_white_average: "hard_white T p \<Longrightarrow> 3 * T \<le> rgb_sum p"
  by (cases p) (simp add: hard_white_def rgb_sum_def)

lemma overflow_not_white:
  assumes "int_to_float T = Inl e" and "\<not> hard_white T p"
  shows "\<not> white T p"
proof -
  obtain r g b a where p: "p = (r, g, b, a)" by (cases p)
  have "uint r < T \<or> uint g < T \<or> uint b < T"
    using assms(2) by (auto simp add: p hard_white_def)
  moreover have "0 \<le> uint r" "0 \<le> uint g" "0 \<le> uint b" by simp_all
  ultimately have "0 < T" by linarith
  then have "2 ^ 53 \<le> T" using overflow_large [OF assms(1)] by simp
  then show ?thesis
    using assms(2) rgb_sum_bounds(2) [of p] by (simp add: white_def)
qed

lemma visit_eq:
  "visit T x y (px, c) =
     (if white T (px (x, y)) then Inr (px((x, y) := transparent), c + 1)
      else if raises T (px (x, y)) then Inl OverflowError
      else Inr (px, c))"
proof (cases "hard_white T (px (x, y))")
  case True
  then show ?thesis by (simp add: visit_def white_def)
next
  case hard: False
  show ?thesis
  proof (cases "3 * T \<le> rgb_sum (px (x, y))")
    case True
    then show ?thesis using hard by (simp add: visit_def white_def average_white_eq)
  next
    case avg: False
    show ?thesis
    proof (cases "int_to_float T")
      case (Inl e)
      then have "\<not> white T (px (x, y))" using hard by (rule overflow_not_white)
      moreover have "int_to_float T = Inl OverflowError"
        using Inl int_to_float_cases [of T] by simp
      ultimately show ?thesis
        using hard avg
        by (simp add: visit_def Let_def average_white_eq translucent_bright_eq raises_def
            white_def)
    next
      case (Inr f)
      then show ?thesis
        using hard avg
        by (simp add: visit_def Let_def average_white_eq translucent_bright_eq raises_def
            white_def)
    qed
  qed
qed

section \<open>The double loop\<close>

lemma scan_row_visit_all: "scan_row T y xs s = visit_all T (map (\<lambda>x. (x, y)) xs) s"
  by (induction xs arbitrary: s) (simp_all split: sum.splits)

lemma visit_all_append:
  "visit_all T (ps @ qs) s =
     (case visit_all T ps s of Inl e \<Rightarrow> Inl e | Inr s' \<Rightarrow> visit_all T qs s')"
  by (induction ps arbitrary: s) (simp_all split: sum.splits)

lemma scan_rows_visit_all:
  "scan_rows T w ys s = visit_all T (concat (map (row_positions w) ys)) s"
  by (induction ys arbitrary: s)
    (simp_all add: visit_all_append scan_row_visit_all row_positions_def split: sum.splits)

lemma filter_image_visit_all:
  "filter_image T img =
     (case visit_all T (positions img) (pixels img, 0) of
        Inl e \<Rightarrow> Inl e
      | Inr (px, c) \<Rightarrow> Inr (img\<lparr>pixels := px\<rparr>, c))"
  by (simp add: filter_image_def scan_rows_visit_all positions_def)

lemma distinct_rows: "distinct ys \<Longrightarrow> distinct (concat (map (row_positions w) ys))"
proof (induction ys)
  case Nil
  show ?case by simp
next
  case (Cons y ys)
  have "distinct (row_positions w y)"
    by (simp add: row_positions_def distinct_map inj_on_def)
  moreover have "set (row_positions w y) \<inter> set (concat (map (row_positions w) ys)) = {}"
    using Cons.prems by (auto simp add: row_positions_def)
  ultimately show ?case using Cons by simp
qed

lemma distinct_positions: "distinct (positions img)"
  unfolding positions_def by (rule distinct_rows) simp

lemma visit_all_eq:
  assumes "distinct ps"
  shows "visit_all T ps (px, c) =
           (if \<exists>xy\<in>set ps. raises T (px xy) then Inl OverflowError
            else Inr (whiten T ps px, c + int (length (filter (\<lambda>xy. white T (px xy)) ps))))"
  using assms
proof (induction ps arbitrary: px c)
  case Nil
  show ?case by (simp add: whiten_def)
next
  case (Cons xy ps)
  from Cons.prems have notin: "xy \<notin> set ps" and d: "distinct ps" by simp_all
  note IH = Cons.IH [OF d]
  obtain x y where xy: "xy = (x, y)" by (cases xy)
  show ?case
  proof (cases "white T (px xy)")
    case True
    let ?px = "px(xy := transparent)"
    have same: "?px q = px q" if "q \<in> set ps" for q
      using that notin by auto
    have r: "(\<exists>q\<in>set ps. raises T (?px q)) = (\<exists>q\<in>set ps. raises T (px q))"
      using same by auto
    have f: "filter (\<lambda>q. white T (?px q)) ps = filter (\<lambda>q. white T (px q)) ps"
      by (rule filter_cong) (use notin in auto)
    have w: "whiten T ps ?px = whiten T (xy # ps) px"
      using True notin by (auto simp add: whiten_def fun_eq_iff)
    have nr: "\<not> raises T (px xy)" using True by (simp add: raises_def)
    have "visit T (fst xy) (snd xy) (px, c) = Inr (?px, c + 1)"
      using True by (simp add: visit_eq xy)
    then have "visit_all T (xy # ps) (px, c) = visit_all T ps (?px, c + 1)"
      by simp
    also have "\<dots> =
        (if \<exists>q\<in>set ps. raises T (?px q) then Inl OverflowError
         else Inr (whiten T ps ?px, c + 1 + int (length (filter (\<lambda>q. white T (?px q)) ps))))"
      by (rule IH)
    also have "\<dots> =
        (if \<exists>q\<in>set ps. raises T (px q) then Inl OverflowError
         else Inr (whiten T (xy # ps) px, c + 1 + int (length (filter (\<lambda>q. white T (px q)) ps))))"
      unfolding r f w ..
    finally show ?thesis
      using True nr by simp
  next
    case False
    have w: "whiten T ps px = whiten T (xy # ps) px"
      using False by (auto simp add: whiten_def fun_eq_iff)
    show ?thesis
      using False by (simp add: visit_eq xy [symmetric] IH w)
  qed
qed

lemma filter_image_eq:
  "filter_image T img =
     (if \<exists>xy\<in>set (positions img). raises T (pixels img xy) then Inl OverflowError
      else Inr (img\<lparr>pixels := whiten T (positions img) (pixels img)\<rparr>, count_where (white T) img))"
  by (simp add: filter_image_visit_all visit_all_eq [OF distinct_positions] count_where_def)

section \<open>The claims\<close>

lemma no_overflow_small: "\<bar>T\<bar> < 2 ^ 53 \<Longrightarrow> \<not> raises T p"
  by (simp add: raises_def int_to_float_small)

subsection \<open>The scenarios\<close>

lemma positions_2x2:
  "width img = 2 \<Longrightarrow> height img = 2 \<Longrightarrow> positions img = [(0, 0), (1, 0), (0, 1), (1, 1)]"
  by (simp add: positions_def row_positions_def upt_rec)

lemma positions_1x1:
  "width img = 1 \<Longrightarrow> height img = 1 \<Longrightarrow> positions img = [(0, 0)]"
  by (simp add: positions_def row_positions_def)

lemma white_240_examples:
  "white 240 (255, 255, 255, 255)" "white 240 (250, 250, 250, 255)"
  "\<not> white 240 (10, 10, 10, 255)" "\<not> white 240 (0, 0, 0, 0)"
  "white 240 (230, 230, 230, 100)"
  by (simp_all add: white_def hard_white_def rgb_sum_def alpha_def)

lemma scenario_A_run: "filter_image 240 scenario_A = Inr (scenario_A_expected, 2)"
proof -
  have p: "positions scenario_A = [(0, 0), (1, 0), (0, 1), (1, 1)]"
    by (rule positions_2x2) (simp_all add: scenario_A_def)
  have r: "\<not> raises 240 q" for q
    by (rule no_overflow_small) simp
  have b: "whiten 240 (positions scenario_A) (pixels scenario_A) = pixels scenario_A_expected"
    unfolding p
    by (auto simp add: whiten_def scenario_A_def scenario_A_expected_def uniform_def
        transparent_def fun_eq_iff white_240_examples)
  have c: "count_where (white 240) scenario_A = 2"
    unfolding count_where_def p
    by (simp add: scenario_A_def uniform_def white_240_examples)
  show ?thesis
    unfolding filter_image_eq b c
    by (simp add: r scenario_A_def scenario_A_expected_def)
qed

lemma scenario_B_run: "filter_image 240 scenario_B = Inr (scenario_B_expected, 1)"
proof -
  have p: "positions scenario_B = [(0, 0)]"
    by (rule positions_1x1) (simp_all add: scenario_B_def)
  have r: "\<not> raises 240 q" for q
    by (rule no_overflow_small) simp
  have b: "whiten 240 (positions scenario_B) (pixels scenario_B) = pixels scenario_B_expected"
    unfolding p
    by (auto simp add: whiten_def scenario_B_def scenario_B_expected_def uniform_def
        transparent_def fun_eq_iff white_240_examples)
  have c: "count_where (white 240) scenario_B = 1"
    unfolding count_where_def p
    by (simp add: scenario_B_def uniform_def white_240_examples)
  show ?thesis
    unfolding filter_image_eq b c
    by (simp add: r scenario_B_def scenario_B_expected_def)
qed

lemma transparent_dot_run: "filter_image 0 transparent_dot = Inr (transparent_dot, 1)"
proof -
  have p: "positions transparent_dot = [(0, 0)]"
    by (rule positions_1x1) (simp_all add: transparent_dot_def)
  have r: "\<not> raises 0 q" for q
    by (rule no_overflow_small) simp
  have w: "white 0 (0, 0, 0, 0)"
    by (simp add: white_def hard_white_def)
  have b: "whiten 0 (positions transparent_dot) (pixels transparent_dot) = pixels transparent_dot"
    unfolding p
    by (auto simp add: whiten_def transparent_dot_def uniform_def transparent_def fun_eq_iff)
  have c: "count_where (white 0) transparent_dot = 1"
    unfolding count_where_def p
    by (simp add: transparent_dot_def uniform_def w)
  show ?thesis
    unfolding filter_image_eq b c
    by (simp add: r)
qed

text \<open>The floating-point values of scenario B, computed by the model of the operations.\<close>

lemma round_double_204: "round_double (240 * lit_0_85) = 204"
  unfolding lit_0_85_def by code_simp

lemma limit_240: "int_mul_float 240 lit_0_85 = Inr 204"
  by (simp add: int_mul_float_def int_to_float_small float_mul_def round_double_204)

lemma average_230: "int_truediv 690 3 = Inr 230"
  using round_double_int [of 230] by (simp add: int_truediv_def)

text \<open>
  Claim C6 (scenario A).  With threshold 240 the first two pixels of the 2 by 2 image become
  \<open>(0, 0, 0, 0)\<close>, the third and the fourth keep their values, and the count is 2.
\<close>

theorem scenario_A_result:
  "filter_image 240 scenario_A = Inr (scenario_A_expected, 2)
   \<and> pixels scenario_A_expected (0, 0) = (0, 0, 0, 0)
   \<and> pixels scenario_A_expected (1, 0) = (0, 0, 0, 0)
   \<and> pixels scenario_A_expected (0, 1) = pixels scenario_A (0, 1)
   \<and> pixels scenario_A_expected (1, 1) = pixels scenario_A (1, 1)"
proof (intro conjI)
  show "filter_image 240 scenario_A = Inr (scenario_A_expected, 2)"
    by (rule scenario_A_run)
qed (simp_all add: scenario_A_def scenario_A_expected_def)

text \<open>
  Claim C7 (scenario B).  With threshold 240 the single pixel \<open>(230, 230, 230, 100)\<close> fails
  the first two rules and meets the third (the average is the float 230, the limit the float
  204, and alpha is below 255); it becomes \<open>(0, 0, 0, 0)\<close> and the count is 1.
\<close>

theorem scenario_B_result:
  "filter_image 240 scenario_B = Inr (scenario_B_expected, 1)
   \<and> pixels scenario_B (0, 0) = (230, 230, 230, 100)
   \<and> pixels scenario_B_expected (0, 0) = (0, 0, 0, 0)
   \<and> \<not> hard_white 240 (230, 230, 230, 100)
   \<and> average_white 240 (230, 230, 230, 100) = Inr False
   \<and> int_truediv (rgb_sum (230, 230, 230, 100)) 3 = Inr 230
   \<and> int_mul_float 240 lit_0_85 = Inr 204
   \<and> translucent_bright 240 (230, 230, 230, 100) = Inr True"
proof (intro conjI)
  show "filter_image 240 scenario_B = Inr (scenario_B_expected, 1)"
    by (rule scenario_B_run)
qed (simp_all add: scenario_B_def scenario_B_expected_def uniform_def
      hard_white_def average_white_def translucent_bright_def rgb_sum_def
      average_230 limit_240)

subsection \<open>The filtered image\<close>

lemma filter_image_returns:
  assumes "\<bar>T\<bar> < 2 ^ 53"
  shows "filter_image T img =
           Inr (img\<lparr>pixels := whiten T (positions img) (pixels img)\<rparr>, count_where (white T) img)"
  using no_overflow_small [OF assms] by (simp add: filter_image_eq)

lemma filter_image_result:
  assumes "filter_image T img = Inr (res, n)"
  shows "res = img\<lparr>pixels := whiten T (positions img) (pixels img)\<rparr>"
    and "n = count_where (white T) img"
    and "\<forall>xy\<in>set (positions img). \<not> raises T (pixels img xy)"
  using assms by (auto simp add: filter_image_eq split: if_splits)

lemma whiten_cases: "whiten T ps px xy = px xy \<or> whiten T ps px xy = (0, 0, 0, 0)"
  by (simp add: whiten_def transparent_def)

lemma spec_white_fun: "spec_white T = white T"
  by (rule ext) (rule spec_white_eq)

lemma not_white_transparent: "1 \<le> T \<Longrightarrow> \<not> white T (0, 0, 0, 0)"
  by (simp add: white_def hard_white_def rgb_sum_def alpha_def)

lemma changed_count_whiten:
  assumes "1 \<le> T"
  shows "changed_count img (img\<lparr>pixels := whiten T (positions img) (pixels img)\<rparr>)
           = count_where (white T) img"
proof -
  have "filter (\<lambda>xy. whiten T (positions img) (pixels img) xy \<noteq> pixels img xy) (positions img)
          = filter (\<lambda>xy. white T (pixels img xy)) (positions img)"
    by (rule filter_cong)
      (use not_white_transparent [OF assms] in \<open>auto simp add: whiten_def transparent_def\<close>)
  then show ?thesis by (simp add: changed_count_def count_where_def)
qed

text \<open>
  Claim C2.  Whenever the scan returns, which it does for every threshold below \<open>2 ^ 53\<close> in
  magnitude, the output has the size of the input and each of its pixels either equals the
  input pixel in all four channels or is \<open>(0, 0, 0, 0)\<close>.
\<close>

theorem output_pixel_unchanged_or_zero:
  "(\<bar>T\<bar> < 2 ^ 53 \<longrightarrow> (\<exists>res n. filter_image T img = Inr (res, n)))
   \<and> (\<forall>res n. filter_image T img = Inr (res, n) \<longrightarrow>
          width res = width img \<and> height res = height img
          \<and> (\<forall>xy. pixels res xy = pixels img xy \<or> pixels res xy = (0, 0, 0, 0)))"
proof (intro conjI allI impI)
  assume "\<bar>T\<bar> < 2 ^ 53"
  then show "\<exists>res n. filter_image T img = Inr (res, n)"
    by (simp add: filter_image_returns)
next
  fix res n
  assume run: "filter_image T img = Inr (res, n)"
  note res = filter_image_result(1) [OF run]
  show "width res = width img" "height res = height img" by (simp_all add: res)
  show "pixels res xy = pixels img xy \<or> pixels res xy = (0, 0, 0, 0)" for xy
    using whiten_cases [of T "positions img" "pixels img" xy] by (simp add: res)
qed

theorem output_pixel_unchanged_or_zero_witness:
  "\<bar>240 :: int\<bar> < 2 ^ 53
   \<and> filter_image 240 scenario_A = Inr (scenario_A_expected, 2)
   \<and> width scenario_A_expected = width scenario_A
   \<and> height scenario_A_expected = height scenario_A
   \<and> (\<forall>xy. pixels scenario_A_expected xy = pixels scenario_A xy
            \<or> pixels scenario_A_expected xy = (0, 0, 0, 0))"
  using output_pixel_unchanged_or_zero [of 240 scenario_A] scenario_A_run by simp

lemma remove_white_edges_result:
  assumes "remove_white_edges decode encode input_path output_path T w = Inr (n, w')"
  shows "\<exists>data img res. files w input_path = Some data \<and> decode data = Inr img
           \<and> filter_image T img = Inr (res, n)
           \<and> w' = w\<lparr>files := (files w)((case output_path of None \<Rightarrow> input_path | Some p \<Rightarrow> p)
                                          \<mapsto> encode res),
                      stdout := stdout w
                        @ [DoneText n,
                           SavedText (case output_path of None \<Rightarrow> input_path | Some p \<Rightarrow> p)]\<rparr>"
  using assms
  by (auto simp add: remove_white_edges_def Let_def split: option.splits sum.splits prod.splits)

text \<open>
  Claim C3, as stated, fails: with threshold 0 the fully transparent pixel meets the first
  rule, is assigned the value it already has and is counted, so the filter returns 1 for an
  image in which no pixel has changed.
\<close>

theorem count_of_changed_counterexample:
  "filter_image 0 transparent_dot = Inr (transparent_dot, 1)
   \<and> changed_count transparent_dot transparent_dot = 0
   \<and> changed_count transparent_dot transparent_dot \<noteq> 1"
proof (intro conjI)
  show "filter_image 0 transparent_dot = Inr (transparent_dot, 1)"
    by (rule transparent_dot_run)
qed (simp_all add: changed_count_def)

text \<open>
  Claim C3, amended.  The value returned is the number of pixels that meet at least one of
  the three rules; for every threshold of at least 1 this is the number of pixels whose
  output value differs from their input value.  The value \<open>remove_white_edges\<close> returns is
  the count of the scan of the decoded input.
\<close>

theorem count_is_number_of_matches:
  "(\<bar>T\<bar> < 2 ^ 53 \<longrightarrow> (\<exists>res n. filter_image T img = Inr (res, n)))
   \<and> (\<forall>res n. filter_image T img = Inr (res, n) \<longrightarrow>
          n = count_where (spec_white T) img \<and> (1 \<le> T \<longrightarrow> n = changed_count img res))
   \<and> (\<forall>n w'. remove_white_edges decode encode input_path output_path T w = Inr (n, w') \<longrightarrow>
          (\<exists>data src res. files w input_path = Some data \<and> decode data = Inr src
             \<and> filter_image T src = Inr (res, n)
             \<and> n = count_where (spec_white T) src \<and> (1 \<le> T \<longrightarrow> n = changed_count src res)))"
proof -
  have a: "n = count_where (spec_white T) i \<and> (1 \<le> T \<longrightarrow> n = changed_count i res)"
    if run: "filter_image T i = Inr (res, n)" for i res n
  proof -
    note r = filter_image_result(1,2) [OF run]
    have "n = changed_count i res" if "1 \<le> T"
      unfolding r using that by (simp add: changed_count_whiten)
    then show ?thesis by (simp add: r(2) spec_white_fun)
  qed
  have b: "\<exists>res n. filter_image T img = Inr (res, n)" if "\<bar>T\<bar> < 2 ^ 53"
    using that by (simp add: filter_image_returns)
  have c: "\<exists>data src res. files w input_path = Some data \<and> decode data = Inr src
             \<and> filter_image T src = Inr (res, n)
             \<and> n = count_where (spec_white T) src \<and> (1 \<le> T \<longrightarrow> n = changed_count src res)"
    if "remove_white_edges decode encode input_path output_path T w = Inr (n, w')" for n w'
    using remove_white_edges_result [OF that] a by blast
  show ?thesis using a b c by blast
qed

theorem count_is_number_of_matches_witness:
  "\<bar>240 :: int\<bar> < 2 ^ 53 \<and> (1 :: int) \<le> 240
   \<and> filter_image 240 scenario_A = Inr (scenario_A_expected, 2)
   \<and> 2 = count_where (spec_white 240) scenario_A
   \<and> 2 = changed_count scenario_A scenario_A_expected
   \<and> remove_white_edges (\<lambda>d. Inr scenario_A) (\<lambda>i. []) ''icon.png'' None 240
         \<lparr>files = [''icon.png'' \<mapsto> []], stdout = [], stderr = []\<rparr>
       = Inr (2, \<lparr>files = [''icon.png'' \<mapsto> []],
                  stdout = [DoneText 2, SavedText ''icon.png''], stderr = []\<rparr>)"
  using count_is_number_of_matches [of 240 scenario_A "\<lambda>d. Inr scenario_A" "\<lambda>i. []"
      "''icon.png''" None "\<lparr>files = [''icon.png'' \<mapsto> []], stdout = [], stderr = []\<rparr>"]
    scenario_A_run
  by (simp add: remove_white_edges_def Let_def)

subsection \<open>A second pass\<close>

lemma positions_pixels_update: "positions (img\<lparr>pixels := f\<rparr>) = positions img"
  by (simp add: positions_def)

lemma whiten_idem: "whiten T ps (whiten T ps px) = whiten T ps px"
  by (auto simp add: whiten_def fun_eq_iff)

lemma white_overflow_any:
  assumes "white T p" and "int_to_float T = Inl e"
  shows "white T q"
proof -
  obtain r g b a where p: "p = (r, g, b, a)" by (cases p)
  obtain r' g' b' a' where q: "q = (r', g', b', a')" by (cases q)
  have "hard_white T p"
    using overflow_not_white [OF assms(2), of p] assms(1) by blast
  then have "T \<le> uint r" by (simp add: p hard_white_def)
  moreover have "uint r < 256" using uint_bounded [of r] by simp
  ultimately have neg: "T \<le> 0" using overflow_large [OF assms(2)] by simp
  have "T \<le> uint r'" "T \<le> uint g'" "T \<le> uint b'"
    by (rule order_trans [OF neg], simp)+
  then have "hard_white T q" by (simp add: q hard_white_def)
  then show ?thesis by (simp add: white_def)
qed

lemma whiten_not_raises:
  assumes "\<not> raises T (px xy)"
  shows "\<not> raises T (whiten T ps px xy)"
proof (cases "xy \<in> set ps \<and> white T (px xy)")
  case True
  then have v: "whiten T ps px xy = transparent" by (simp add: whiten_def)
  show ?thesis
  proof
    assume r: "raises T (whiten T ps px xy)"
    then have "int_to_float T = Inl OverflowError" by (simp add: raises_def)
    then have "white T transparent" using True white_overflow_any by blast
    with r show False by (simp add: raises_def v)
  qed
next
  case False
  then have "whiten T ps px xy = px xy" by (auto simp add: whiten_def)
  with assms show ?thesis by simp
qed

text \<open>
  Claim C4.  If the filter returns an image, filtering that image again with the same
  threshold returns the very same image.
\<close>

theorem filter_image_idempotent:
  assumes "filter_image T img = Inr (res, n)"
  shows "\<exists>m. filter_image T res = Inr (res, m)"
proof -
  let ?ps = "positions img"
  note r = filter_image_result [OF assms]
  have ps: "positions res = ?ps" unfolding r(1) by (rule positions_pixels_update)
  have px: "pixels res = whiten T ?ps (pixels img)" by (simp add: r(1))
  have "\<forall>xy\<in>set (positions res). \<not> raises T (pixels res xy)"
    unfolding ps px using r(3) whiten_not_raises by blast
  moreover have "res\<lparr>pixels := whiten T (positions res) (pixels res)\<rparr> = res"
    unfolding ps px [symmetric] by (simp add: px whiten_idem)
  ultimately show ?thesis by (simp add: filter_image_eq)
qed

theorem filter_image_idempotent_witness:
  "filter_image 240 scenario_A = Inr (scenario_A_expected, 2)
   \<and> (\<exists>m. filter_image 240 scenario_A_expected = Inr (scenario_A_expected, m))"
  using filter_image_idempotent [of 240 scenario_A scenario_A_expected 2] scenario_A_run
  by simp

subsection \<open>Thresholds\<close>

lemma length_filter_mono:
  assumes "\<And>x. x \<in> set xs \<Longrightarrow> P x \<Longrightarrow> Q x"
  shows "length (filter P xs) \<le> length (filter Q xs)"
  using assms by (induction xs) auto

lemma count_where_mono:
  assumes "\<And>p. P p \<Longrightarrow> Q p"
  shows "count_where P img \<le> count_where Q img"
  unfolding count_where_def using assms by (simp add: length_filter_mono)

lemma hard_white_counts_scenario_A:
  "count_where (hard_white 252) scenario_A = 1" "count_where (hard_white 240) scenario_A = 2"
proof -
  have p: "positions scenario_A = [(0, 0), (1, 0), (0, 1), (1, 1)]"
    by (rule positions_2x2) (simp_all add: scenario_A_def)
  show "count_where (hard_white 252) scenario_A = 1"
    "count_where (hard_white 240) scenario_A = 2"
    unfolding count_where_def p
    by (simp_all add: scenario_A_def uniform_def hard_white_def)
qed

text \<open>
  Claim C5.  For a fixed image and thresholds \<open>T1 \<le> T2\<close>, no more pixels meet the condition
  of rule 1 at \<open>T2\<close> than at \<open>T1\<close>, and likewise for the condition of rule 2, whether it is
  computed in floating point as the script does or read over exact arithmetic.
\<close>

theorem matches_antitone_in_threshold:
  assumes "T1 \<le> T2"
  shows "count_where (hard_white T2) img \<le> count_where (hard_white T1) img
       \<and> count_where (\<lambda>p. average_white T2 p = Inr True) img
           \<le> count_where (\<lambda>p. average_white T1 p = Inr True) img
       \<and> count_where (spec_average_white T2) img \<le> count_where (spec_average_white T1) img"
proof (intro conjI)
  show "count_where (hard_white T2) img \<le> count_where (hard_white T1) img"
    by (rule count_where_mono) (use assms in \<open>auto simp add: hard_white_def\<close>)
  show "count_where (\<lambda>p. average_white T2 p = Inr True) img
          \<le> count_where (\<lambda>p. average_white T1 p = Inr True) img"
    by (rule count_where_mono) (use assms in \<open>simp add: average_white_eq\<close>)
  show "count_where (spec_average_white T2) img \<le> count_where (spec_average_white T1) img"
    by (rule count_where_mono) (use assms in \<open>simp add: spec_average_white_eq\<close>)
qed

theorem matches_antitone_in_threshold_witness:
  "(240 :: int) \<le> 252
   \<and> count_where (hard_white 252) scenario_A = 1
   \<and> count_where (hard_white 240) scenario_A = 2
   \<and> count_where (hard_white 252) scenario_A \<le> count_where (hard_white 240) scenario_A
   \<and> count_where (\<lambda>p. average_white 252 p = Inr True) scenario_A
        \<le> count_where (\<lambda>p. average_white 240 p = Inr True) scenario_A
   \<and> count_where (spec_average_white 252) scenario_A
        \<le> count_where (spec_average_white 240) scenario_A"
  using matches_antitone_in_threshold [of 240 252 scenario_A]
  by (simp add: hard_white_counts_scenario_A)

subsection \<open>The command line\<close>

text \<open>
  Claim C8.  When the input path names no file, the script exits with status 1, leaves every
  file as it was and prints one message: the not-found message on standard output or, when
  a third argument is given that \<open>int\<close> rejects, the traceback of that error on standard
  error.  Called directly, \<open>remove_white_edges\<close> fails with \<open>FileNotFoundError\<close>.
\<close>

theorem missing_input_exits_1:
  assumes "2 \<le> length argv" and "files w (argv ! 1) = None"
  shows "fst (main parse_int decode encode argv w) = 1
       \<and> files (snd (main parse_int decode encode argv w)) = files w
       \<and> (stdout (snd (main parse_int decode encode argv w))
              = stdout w @ [NotFoundText (argv ! 1)]
            \<and> stderr (snd (main parse_int decode encode argv w)) = stderr w
          \<or> stdout (snd (main parse_int decode encode argv w)) = stdout w
            \<and> (\<exists>e. stderr (snd (main parse_int decode encode argv w))
                   = stderr w @ [Traceback e]))
       \<and> remove_white_edges decode encode (argv ! 1) out T w = Inl FileNotFoundError"
proof -
  have r: "remove_white_edges decode encode (argv ! 1) out T w = Inl FileNotFoundError"
    using assms(2) by (simp add: remove_white_edges_def Let_def)
  show ?thesis
  proof (cases "if 3 < length argv then parse_int (argv ! 3) else Inr 240")
    case (Inl e)
    then show ?thesis using assms r by (simp add: main_def Let_def)
  next
    case (Inr threshold)
    then show ?thesis using assms r by (simp add: main_def Let_def)
  qed
qed

theorem missing_input_exits_1_witness:
  "2 \<le> length [''remove-white-edges.py'', ''missing.png'']
   \<and> files \<lparr>files = Map.empty, stdout = [], stderr = []\<rparr>
         ([''remove-white-edges.py'', ''missing.png''] ! 1) = None
   \<and> main (\<lambda>s. Inl ValueError) (\<lambda>d. Inl UnidentifiedImageError) (\<lambda>i. [])
         [''remove-white-edges.py'', ''missing.png'']
         \<lparr>files = Map.empty, stdout = [], stderr = []\<rparr>
       = (1, \<lparr>files = Map.empty, stdout = [NotFoundText ''missing.png''], stderr = []\<rparr>)"
  using missing_input_exits_1 [of "[''remove-white-edges.py'', ''missing.png'']"
      "\<lparr>files = Map.empty, stdout = [], stderr = []\<rparr>"
      "\<lambda>s. Inl ValueError" "\<lambda>d. Inl UnidentifiedImageError" "\<lambda>i. []"]
  by (simp add: main_def)

subsection \<open>Every pixel of the image\<close>

lemma set_positions: "set (positions img) = {(x, y). x < width img \<and> y < height img}"
  by (auto simp add: positions_def row_positions_def)

lemma length_rows: "length (concat (map (row_positions w) ys)) = length ys * w"
  by (induction ys) (simp_all add: row_positions_def)

lemma length_positions: "length (positions img) = width img * height img"
  by (simp add: positions_def length_rows mult.commute)

lemma filter_image_pixel:
  assumes "filter_image T img = Inr (res, n)" and "x < width img" and "y < height img"
  shows "pixels res (x, y)
           = (if white T (pixels img (x, y)) then (0, 0, 0, 0) else pixels img (x, y))"
proof -
  have "(x, y) \<in> set (positions img)"
    using assms(2,3) by (simp add: set_positions)
  then show ?thesis
    by (simp add: filter_image_result(1) [OF assms(1)] whiten_def transparent_def)
qed

lemma filter_image_error:
  assumes "filter_image T img = Inl e"
  shows "e = OverflowError" and "2 ^ 53 \<le> \<bar>T\<bar>"
proof -
  from assms obtain xy where r: "raises T (pixels img xy)" and e: "e = OverflowError"
    by (auto simp add: filter_image_eq split: if_splits)
  show "e = OverflowError" by (rule e)
  from r have "int_to_float T = Inl OverflowError" by (simp add: raises_def)
  then show "2 ^ 53 \<le> \<bar>T\<bar>" by (rule overflow_large)
qed

lemma white_computed:
  "white T q = (average_white T q = Inr True \<or> translucent_bright T q = Inr True)"
proof -
  have w: "white T q = (3 * T \<le> rgb_sum q \<or> (alpha q < 255 \<and> 51 * T \<le> 20 * rgb_sum q))"
    using hard_white_average [of T q] by (auto simp add: white_def)
  have "white T q" if "alpha q < 255" "51 * T \<le> 20 * rgb_sum q"
    using that by (simp add: white_def)
  then have o: "3 * T \<le> rgb_sum q"
    if "alpha q < 255" "51 * T \<le> 20 * rgb_sum q" "int_to_float T = Inl e" for e
    using that overflow_not_white [of T e q] hard_white_average [of T q] by blast
  show ?thesis
    unfolding w using o
    by (cases "int_to_float T") (auto simp add: average_white_eq translucent_bright_eq)
qed

lemma white_without_rule_1:
  "white T q = (spec_average_white T q \<or> spec_translucent_bright T q)"
  using hard_white_average [of T q]
  by (auto simp add: white_def spec_average_white_eq spec_translucent_bright_eq)

lemma negative_all_white: "T < 0 \<Longrightarrow> hard_white T p"
proof -
  assume "T < 0"
  obtain r g b a where p: "p = (r, g, b, a)" by (cases p)
  have lo: "0 \<le> uint r" "0 \<le> uint g" "0 \<le> uint b" by simp_all
  have "T \<le> 0" using \<open>T < 0\<close> by simp
  then have "T \<le> uint r" "T \<le> uint g" "T \<le> uint b"
    using lo by linarith+
  then show ?thesis by (simp add: p hard_white_def)
qed

lemma above_255_not_hard_white: "255 < T \<Longrightarrow> \<not> hard_white T p"
proof -
  assume "255 < T"
  obtain r g b a where p: "p = (r, g, b, a)" by (cases p)
  have "uint r < 256" using uint_bounded [of r] by simp
  then show ?thesis using \<open>255 < T\<close> by (simp add: p hard_white_def)
qed

lemma filter_image_negative:
  assumes "T < 0"
  shows "filter_image T img
           = Inr (img\<lparr>pixels := whiten T (positions img) (pixels img)\<rparr>,
                  int (width img * height img))"
proof -
  have w: "white T p" for p
    using negative_all_white [OF assms, of p] by (simp add: white_def)
  then have r: "\<not> raises T p" for p by (simp add: raises_def)
  have "count_where (white T) img = int (width img * height img)"
    by (simp add: count_where_def w length_positions)
  then show ?thesis by (simp add: filter_image_eq r)
qed

text \<open>
  Claim C1.  One run of the loop body assigns \<open>(0, 0, 0, 0)\<close> (and counts the pixel) exactly
  when one of the three rules of the specification, read over exact arithmetic, holds of
  the pixel there; when none holds, the buffer and the counter are left as they were, the
  only other outcome being the \<open>OverflowError\<close> of \<open>threshold * 0.85\<close>, which assigns
  nothing.  For the filter as a whole: it returns for every threshold below \<open>2 ^ 53\<close> in
  magnitude, it can fail only with that \<open>OverflowError\<close>, and in every image it returns each
  pixel of the input that meets a rule is \<open>(0, 0, 0, 0)\<close> and each pixel that meets none has
  its four input channels; the count is the number of pixels meeting a rule.
\<close>

theorem visit_zeroes_iff_rule:
  "(visit T x y (px, c) = Inr (px((x, y) := (0, 0, 0, 0)), c + 1)
      \<longleftrightarrow> spec_hard_white T (px (x, y)) \<or> spec_average_white T (px (x, y))
           \<or> spec_translucent_bright T (px (x, y)))
   \<and> (\<not> (spec_hard_white T (px (x, y)) \<or> spec_average_white T (px (x, y))
           \<or> spec_translucent_bright T (px (x, y)))
        \<longrightarrow> visit T x y (px, c) = Inr (px, c) \<or> visit T x y (px, c) = Inl OverflowError)
   \<and> (\<not> (spec_hard_white T (px (x, y)) \<or> spec_average_white T (px (x, y))
           \<or> spec_translucent_bright T (px (x, y))) \<and> \<bar>T\<bar> < 2 ^ 53
        \<longrightarrow> visit T x y (px, c) = Inr (px, c))
   \<and> (\<bar>T\<bar> < 2 ^ 53 \<longrightarrow> (\<exists>res n. filter_image T img = Inr (res, n)))
   \<and> (\<forall>e. filter_image T img = Inl e \<longrightarrow> e = OverflowError \<and> 2 ^ 53 \<le> \<bar>T\<bar>)
   \<and> (\<forall>res n. filter_image T img = Inr (res, n) \<longrightarrow>
          width res = width img \<and> height res = height img
          \<and> n = count_where (spec_white T) img
          \<and> (\<forall>i j. i < width img \<and> j < height img \<longrightarrow>
                pixels res (i, j)
                  = (if spec_hard_white T (pixels img (i, j))
                        \<or> spec_average_white T (pixels img (i, j))
                        \<or> spec_translucent_bright T (pixels img (i, j))
                     then (0, 0, 0, 0) else pixels img (i, j))))"
proof -
  have w: "(spec_hard_white T q \<or> spec_average_white T q \<or> spec_translucent_bright T q)
             = white T q" for q
    using spec_white_eq [of T q] by (simp add: spec_white_def)
  have a: "(visit T x y (px, c) = Inr (px((x, y) := (0, 0, 0, 0)), c + 1)) = white T (px (x, y))"
    by (simp add: visit_eq transparent_def)
  have b: "visit T x y (px, c) = Inr (px, c) \<or> visit T x y (px, c) = Inl OverflowError"
    if "\<not> white T (px (x, y))"
    using that by (simp add: visit_eq)
  have c: "visit T x y (px, c) = Inr (px, c)" if "\<not> white T (px (x, y))" "\<bar>T\<bar> < 2 ^ 53"
    using that no_overflow_small [of T "px (x, y)"] by (simp add: visit_eq)
  have d: "\<exists>res n. filter_image T img = Inr (res, n)" if "\<bar>T\<bar> < 2 ^ 53"
    using that by (simp add: filter_image_returns)
  have e: "e = OverflowError \<and> 2 ^ 53 \<le> \<bar>T\<bar>" if "filter_image T img = Inl e" for e
    using filter_image_error [OF that] by simp
  have f: "width res = width img \<and> height res = height img
          \<and> n = count_where (spec_white T) img
          \<and> (\<forall>i j. i < width img \<and> j < height img \<longrightarrow>
                pixels res (i, j)
                  = (if white T (pixels img (i, j)) then (0, 0, 0, 0) else pixels img (i, j)))"
    if run: "filter_image T img = Inr (res, n)" for res n
    using filter_image_pixel [OF run] filter_image_result(2) [OF run]
    by (simp add: filter_image_result(1) [OF run] spec_white_fun)
  show ?thesis
    unfolding w using a b c d e f by blast
qed

theorem visit_zeroes_iff_rule_witness:
  "\<not> (spec_hard_white 240 (uniform (10, 10, 10, 255) (0, 0))
       \<or> spec_average_white 240 (uniform (10, 10, 10, 255) (0, 0))
       \<or> spec_translucent_bright 240 (uniform (10, 10, 10, 255) (0, 0)))
   \<and> \<bar>240 :: int\<bar> < 2 ^ 53
   \<and> visit 240 0 0 (uniform (10, 10, 10, 255), 0) = Inr (uniform (10, 10, 10, 255), 0)
   \<and> filter_image 240 scenario_A = Inr (scenario_A_expected, 2)
   \<and> 2 = count_where (spec_white 240) scenario_A
   \<and> (1 :: nat) < width scenario_A \<and> (0 :: nat) < height scenario_A
   \<and> spec_hard_white 240 (pixels scenario_A (1, 0))
   \<and> pixels scenario_A_expected (1, 0) = (0, 0, 0, 0)"
  using visit_zeroes_iff_rule [of 240 0 0 "uniform (10, 10, 10, 255)" 0 scenario_A]
    scenario_A_run
  by (simp add: uniform_def spec_hard_white_def spec_average_white_def
      spec_translucent_bright_def rgb_sum_def alpha_def scenario_A_def)

text \<open>
  Claim C9.  Above 255 the condition of rule 1 holds of no pixel, so no pixel of an image
  meets it.  Below 0 it holds of every pixel: one run of the loop body sets the pixel to
  \<open>(0, 0, 0, 0)\<close> and counts it, and the filter returns an image of the same size in which
  every pixel is \<open>(0, 0, 0, 0)\<close>, with the count equal to the number of pixels.
\<close>

theorem out_of_range_thresholds:
  "(255 < T \<longrightarrow> \<not> hard_white T (px (x, y)))
   \<and> (T < 0 \<longrightarrow> hard_white T (px (x, y))
         \<and> visit T x y (px, c) = Inr (px((x, y) := (0, 0, 0, 0)), c + 1))
   \<and> (255 < T \<longrightarrow> count_where (hard_white T) img = 0)
   \<and> (T < 0 \<longrightarrow> count_where (hard_white T) img = int (width img * height img)
         \<and> (\<exists>res. filter_image T img = Inr (res, int (width img * height img))
               \<and> width res = width img \<and> height res = height img
               \<and> (\<forall>i j. i < width img \<and> j < height img \<longrightarrow> pixels res (i, j) = (0, 0, 0, 0))))"
proof (intro conjI impI)
  show "\<not> hard_white T (px (x, y))" if "255 < T"
    using that by (rule above_255_not_hard_white)
  show h: "hard_white T (px (x, y))" if "T < 0"
    using that by (rule negative_all_white)
  show "visit T x y (px, c) = Inr (px((x, y) := (0, 0, 0, 0)), c + 1)" if "T < 0"
    using h [OF that] by (simp add: visit_def transparent_def)
  show "count_where (hard_white T) img = 0" if "255 < T"
    using above_255_not_hard_white [OF that] by (simp add: count_where_def)
  show "count_where (hard_white T) img = int (width img * height img)" if "T < 0"
    using negative_all_white [OF that] by (simp add: count_where_def length_positions)
  show "\<exists>res. filter_image T img = Inr (res, int (width img * height img))
               \<and> width res = width img \<and> height res = height img
               \<and> (\<forall>i j. i < width img \<and> j < height img \<longrightarrow> pixels res (i, j) = (0, 0, 0, 0))"
    if neg: "T < 0"
  proof -
    let ?res = "img\<lparr>pixels := whiten T (positions img) (pixels img)\<rparr>"
    have run: "filter_image T img = Inr (?res, int (width img * height img))"
      using neg by (rule filter_image_negative)
    have w: "white T p" for p
      using negative_all_white [OF neg, of p] by (simp add: white_def)
    have "pixels ?res (i, j) = (0, 0, 0, 0)" if "i < width img" "j < height img" for i j
      using filter_image_pixel [OF run that] by (simp add: w)
    then show ?thesis using run by auto
  qed
qed

theorem out_of_range_thresholds_witness:
  "(255 :: int) < 256 \<and> \<not> hard_white 256 (uniform (255, 255, 255, 255) (0, 0))
   \<and> count_where (hard_white 256) scenario_A = 0
   \<and> (- 1 :: int) < 0 \<and> hard_white (- 1) (uniform (10, 10, 10, 255) (0, 0))
   \<and> visit (- 1) 0 0 (uniform (10, 10, 10, 255), 0)
        = Inr ((uniform (10, 10, 10, 255))((0, 0) := (0, 0, 0, 0)), 0 + 1)
   \<and> count_where (hard_white (- 1)) scenario_A = 4
   \<and> (\<exists>res. filter_image (- 1) scenario_A = Inr (res, 4)
         \<and> (\<forall>i j. i < 2 \<and> j < 2 \<longrightarrow> pixels res (i, j) = (0, 0, 0, 0)))"
  using out_of_range_thresholds [of 256 "uniform (255, 255, 255, 255)" 0 0 0 scenario_A]
    out_of_range_thresholds [of "- 1" "uniform (10, 10, 10, 255)" 0 0 0 scenario_A]
  by (simp add: scenario_A_def) blast

text \<open>
  Claim C10.  A pixel that meets rule 1 meets rule 2 as well.  So one run of the loop body
  sets the pixel to \<open>(0, 0, 0, 0)\<close> exactly when rule 2 or rule 3 holds, and in every image
  the filter returns the pixels that are set to \<open>(0, 0, 0, 0)\<close>, and those that are counted,
  are the pixels of the input that meet rule 2 or rule 3, the others keeping their values.
  This holds for the rules as the script computes them and for the rules over exact
  arithmetic.
\<close>

theorem rule_1_redundant:
  "(hard_white T p \<longrightarrow> average_white T p = Inr True \<and> spec_average_white T p)
   \<and> (visit T x y (px, c) = Inr (px((x, y) := (0, 0, 0, 0)), c + 1)
        \<longleftrightarrow> spec_average_white T (px (x, y)) \<or> spec_translucent_bright T (px (x, y)))
   \<and> (visit T x y (px, c) = Inr (px((x, y) := (0, 0, 0, 0)), c + 1)
        \<longleftrightarrow> average_white T (px (x, y)) = Inr True
            \<or> translucent_bright T (px (x, y)) = Inr True)
   \<and> (\<bar>T\<bar> < 2 ^ 53 \<longrightarrow> (\<exists>res n. filter_image T img = Inr (res, n)))
   \<and> (\<forall>res n. filter_image T img = Inr (res, n) \<longrightarrow>
          n = count_where (\<lambda>q. spec_average_white T q \<or> spec_translucent_bright T q) img
          \<and> n = count_where
                 (\<lambda>q. average_white T q = Inr True \<or> translucent_bright T q = Inr True) img
          \<and> (\<forall>i j. i < width img \<and> j < height img \<longrightarrow>
                pixels res (i, j)
                  = (if spec_average_white T (pixels img (i, j))
                        \<or> spec_translucent_bright T (pixels img (i, j))
                     then (0, 0, 0, 0) else pixels img (i, j))
                \<and> pixels res (i, j)
                  = (if average_white T (pixels img (i, j)) = Inr True
                        \<or> translucent_bright T (pixels img (i, j)) = Inr True
                     then (0, 0, 0, 0) else pixels img (i, j))))"
proof -
  have v: "(visit T x y (px, c) = Inr (px((x, y) := (0, 0, 0, 0)), c + 1)) = white T (px (x, y))"
    by (simp add: visit_eq transparent_def)
  have s: "(\<lambda>q. spec_average_white T q \<or> spec_translucent_bright T q) = white T"
    by (rule ext) (simp add: white_without_rule_1)
  have k: "(\<lambda>q. average_white T q = Inr True \<or> translucent_bright T q = Inr True) = white T"
    by (rule ext) (simp add: white_computed)
  have a: "average_white T p = Inr True \<and> spec_average_white T p" if "hard_white T p"
    using hard_white_average [OF that] by (simp add: average_white_eq spec_average_white_eq)
  have b: "(visit T x y (px, c) = Inr (px((x, y) := (0, 0, 0, 0)), c + 1))
          = (spec_average_white T (px (x, y)) \<or> spec_translucent_bright T (px (x, y)))"
    unfolding v by (rule white_without_rule_1)
  have c: "(visit T x y (px, c) = Inr (px((x, y) := (0, 0, 0, 0)), c + 1))
          = (average_white T (px (x, y)) = Inr True
             \<or> translucent_bright T (px (x, y)) = Inr True)"
    unfolding v by (rule white_computed)
  have d: "\<exists>res n. filter_image T img = Inr (res, n)" if "\<bar>T\<bar> < 2 ^ 53"
    using that by (simp add: filter_image_returns)
  have e: "n = count_where (\<lambda>q. spec_average_white T q \<or> spec_translucent_bright T q) img
          \<and> n = count_where
                 (\<lambda>q. average_white T q = Inr True \<or> translucent_bright T q = Inr True) img
          \<and> (\<forall>i j. i < width img \<and> j < height img \<longrightarrow>
                pixels res (i, j)
                  = (if spec_average_white T (pixels img (i, j))
                        \<or> spec_translucent_bright T (pixels img (i, j))
                     then (0, 0, 0, 0) else pixels img (i, j))
                \<and> pixels res (i, j)
                  = (if average_white T (pixels img (i, j)) = Inr True
                        \<or> translucent_bright T (pixels img (i, j)) = Inr True
                     then (0, 0, 0, 0) else pixels img (i, j)))"
    if run: "filter_image T img = Inr (res, n)" for res n
    unfolding s k
    using filter_image_pixel [OF run] filter_image_result(2) [OF run]
    by (simp flip: white_without_rule_1 white_computed)
  show ?thesis
    using a b c d e by blast
qed

theorem rule_1_redundant_witness:
  "hard_white 240 (255, 255, 255, 255)
   \<and> average_white 240 (255, 255, 255, 255) = Inr True
   \<and> spec_average_white 240 (255, 255, 255, 255)
   \<and> \<bar>240 :: int\<bar> < 2 ^ 53
   \<and> filter_image 240 scenario_A = Inr (scenario_A_expected, 2)
   \<and> 2 = count_where (\<lambda>q. spec_average_white 240 q \<or> spec_translucent_bright 240 q)
            scenario_A
   \<and> (1 :: nat) < width scenario_A \<and> (0 :: nat) < height scenario_A
   \<and> spec_average_white 240 (pixels scenario_A (1, 0))
   \<and> pixels scenario_A_expected (1, 0) = (0, 0, 0, 0)"
  using rule_1_redundant [of 240 "(255, 255, 255, 255)" 0 0 "uniform (10, 10, 10, 255)" 0
      scenario_A]
    scenario_A_run
  by (simp add: hard_white_def scenario_A_def spec_average_white_def rgb_sum_def)

end
